theory Spec2Isabelle
  imports Main "HOL-Library.Sublist"
begin

section \<open>Strings of the source language\<close>

text \<open>
  The plugin (\<^verbatim>\<open>main.js\<close>, the class \<^verbatim>\<open>CopyPreviousDayNotePlugin\<close>) works on
  JavaScript strings. A text is modelled as a \<^typ>\<open>string\<close>, one \<^typ>\<open>char\<close> per
  UTF-16 code unit, for the code units below 256. Every character the source names
  (tab, newline, space, \<^verbatim>\<open>-\<close>, \<^verbatim>\<open>*\<close>, \<^verbatim>\<open>[x]\<close>, \<^verbatim>\<open>/\<close>, the letters of the date
  tokens) lies in that range.
\<close>

definition TAB :: char where
  "TAB = CHR 0x09"

definition NL :: char where
  "NL = CHR 0x0A"

definition SP :: char where
  "SP = CHR 0x20"

text \<open>
  The class \<^verbatim>\<open>\s\<close> of a JavaScript regular expression, which is also the set of
  characters \<^verbatim>\<open>String.prototype.trim\<close> strips (WhiteSpace and LineTerminator), cut
  to the code units below 256: TAB, LF, VT, FF, CR, SPACE and NO-BREAK SPACE.
\<close>

definition isWhiteSpace :: "char \<Rightarrow> bool" where
  "isWhiteSpace c =
     (c = CHR 0x09 \<or> c = CHR 0x0A \<or> c = CHR 0x0B \<or> c = CHR 0x0C \<or> c = CHR 0x0D \<or>
      c = CHR 0x20 \<or> c = CHR 0xA0)"

text \<open>\<^verbatim>\<open>s.split(sep)\<close> for a separator of one character: never the empty array.\<close>

fun js_split :: "string \<Rightarrow> char \<Rightarrow> string list" where
  "js_split [] sep = [[]]"
| "js_split (c # cs) sep =
     (if c = sep then [] # js_split cs sep
      else (case js_split cs sep of
              [] \<Rightarrow> [[c]]
            | seg # segs \<Rightarrow> (c # seg) # segs))"

text \<open>\<^verbatim>\<open>array.join(sep)\<close> for a separator of one character.\<close>

fun js_join :: "string list \<Rightarrow> char \<Rightarrow> string" where
  "js_join [] sep = []"
| "js_join [x] sep = x"
| "js_join (x # y # rest) sep = x @ sep # js_join (y # rest) sep"

text \<open>\<^verbatim>\<open>s.trim()\<close>: white space stripped at both ends.\<close>

definition js_trim :: "string \<Rightarrow> string" where
  "js_trim s = rev (dropWhile isWhiteSpace (rev (dropWhile isWhiteSpace s)))"

text \<open>\<^verbatim>\<open>line.replace(/\t/g, '   ')\<close>: every tab becomes three spaces.\<close>

definition replaceTabs :: "string \<Rightarrow> string" where
  "replaceTabs line = concat (map (\<lambda>c. if c = TAB then [SP, SP, SP] else [c]) line)"

text \<open>
  \<^verbatim>\<open>s.search(/\S/)\<close>: the index of the first character that is not white space,
  and \<open>-1\<close> when there is none.
\<close>

fun search_nonspace :: "string \<Rightarrow> int" where
  "search_nonspace [] = - 1"
| "search_nonspace (c # cs) =
     (if \<not> isWhiteSpace c then 0
      else (let r = search_nonspace cs in if r < 0 then - 1 else r + 1))"

section \<open>The task filter\<close>

text \<open>
  \<^verbatim>\<open>const taskRegex = /^\s*[-\*]\s\[x\]/\<close>. The body after \<^verbatim>\<open>^\s*\<close> is a list marker,
  one white-space character and the checked box \<^verbatim>\<open>[x]\<close>.
\<close>

fun taskBody :: "string \<Rightarrow> bool" where
  "taskBody (m # s # b1 # b2 # b3 # rest) =
     ((m = CHR ''-'' \<or> m = CHR ''*'') \<and> isWhiteSpace s \<and>
      b1 = CHR ''['' \<and> b2 = CHR ''x'' \<and> b3 = CHR '']'')"
| "taskBody _ = False"

text \<open>
  \<^verbatim>\<open>taskRegex.test(line)\<close>: the match is anchored at the start of the line, and
  \<^verbatim>\<open>\s*\<close> may stop after any number of leading white-space characters.
\<close>

fun taskRegex_test :: "string \<Rightarrow> bool" where
  "taskRegex_test [] = False"
| "taskRegex_test (c # cs) =
     (taskBody (c # cs) \<or> (isWhiteSpace c \<and> taskRegex_test cs))"

text \<open>
  The body of \<^verbatim>\<open>removeCompletedTasks\<close>: the \<^verbatim>\<open>for\<close> loop over the lines, with the
  variables \<^verbatim>\<open>skip\<close> and \<^verbatim>\<open>result\<close> threaded through; \<^verbatim>\<open>result.push(line)\<close> appends
  at the end and \<^verbatim>\<open>continue\<close> goes to the next line. The loop returns both variables
  as they stand after the last line.
\<close>

fun loop :: "string list \<Rightarrow> int \<Rightarrow> string list \<Rightarrow> int \<times> string list" where
  "loop [] skip result = (skip, result)"
| "loop (line # rest) skip result =
     (if js_trim line = [] then loop rest skip (result @ [line])
      else
        (let level = search_nonspace (replaceTabs line) + 1 in
         if taskRegex_test line then
           loop rest (if skip = 0 \<or> level < skip then level else skip) result
         else if skip > 0 \<and> level > skip then loop rest skip result
         else loop rest 0 (result @ [line])))"

definition removeCompletedTasks :: "string \<Rightarrow> string" where
  "removeCompletedTasks content = js_join (snd (loop (js_split content NL) 0 [])) NL"

text \<open>
  One turn of the loop, read off its body: the value of \<^verbatim>\<open>skip\<close> after the turn on
  \<open>line\<close>, and the lines the turn pushes (none or the line itself). The lemma
  \<open>loop_Cons\<close> below ties both to \<open>loop\<close>.
\<close>

definition indentLevel :: "string \<Rightarrow> int" where
  "indentLevel line = search_nonspace (replaceTabs line) + 1"

definition skipAfter :: "string \<Rightarrow> int \<Rightarrow> int" where
  "skipAfter line skip =
     (if js_trim line = [] then skip
      else if taskRegex_test line then
        (if skip = 0 \<or> indentLevel line < skip then indentLevel line else skip)
      else if skip > 0 \<and> indentLevel line > skip then skip
      else 0)"

definition pushed :: "string \<Rightarrow> int \<Rightarrow> string list" where
  "pushed line skip =
     (if js_trim line = [] then [line]
      else if taskRegex_test line then []
      else if skip > 0 \<and> indentLevel line > skip then []
      else [line])"

section \<open>The folder path resolver\<close>

text \<open>
  \<^verbatim>\<open>const dateTokens = ['YYYY', 'YY', 'MM', 'M', 'DD', 'D', 'ddd', 'dddd', 'MMMM', 'MMM']\<close>,
  in the order of the source.
\<close>

definition dateTokens :: "string list" where
  "dateTokens =
     [''YYYY'', ''YY'', ''MM'', ''M'', ''DD'', ''D'', ''ddd'', ''dddd'', ''MMMM'', ''MMM'']"

text \<open>\<^verbatim>\<open>segment.includes(token)\<close>: the token occurs somewhere in the segment.\<close>

definition js_includes :: "string \<Rightarrow> string \<Rightarrow> bool" where
  "js_includes segment token = sublist token segment"

text \<open>
  \<^verbatim>\<open>new RegExp(dateTokens.join('|'), 'g')\<close> tried at one position: a JavaScript
  alternation takes its alternatives from left to right, and the first that matches
  is the match.
\<close>

fun matchAlternation :: "string list \<Rightarrow> string \<Rightarrow> string option" where
  "matchAlternation [] s = None"
| "matchAlternation (tok # toks) s =
     (if prefix tok s then Some tok else matchAlternation toks s)"

text \<open>
  \<^verbatim>\<open>segment.replace(regex, match => date.format(match))\<close> with the global flag: the
  segment is read from left to right; where the alternation matches, the value of
  the callback is written and the scan goes on after the match; elsewhere the
  character is copied. The method \<^verbatim>\<open>date.format\<close> of the host's date object is the
  parameter \<open>format\<close>.
\<close>

function replaceTokens :: "(string \<Rightarrow> string) \<Rightarrow> string \<Rightarrow> string" where
  "replaceTokens format [] = []"
| "replaceTokens format (c # cs) =
     (case matchAlternation dateTokens (c # cs) of
        None \<Rightarrow> c # replaceTokens format cs
      | Some tok \<Rightarrow> format tok @ replaceTokens format (drop (length tok) (c # cs)))"
  by pat_completeness auto
termination
proof (relation "measure (\<lambda>(format, s). length s)")
  show "wf (measure (\<lambda>(format, s). length s))"
    by simp
next
  fix format :: "string \<Rightarrow> string" and c :: char and cs :: string
  show "((format, cs), (format, c # cs)) \<in> measure (\<lambda>(format, s). length s)"
    by simp
next
  fix format :: "string \<Rightarrow> string" and c :: char and cs tok :: string
  assume "matchAlternation dateTokens (c # cs) = Some tok"
  then have "tok \<noteq> []"
    by (auto simp: dateTokens_def split: if_splits)
  then show "((format, drop (length tok) (c # cs)), (format, c # cs))
      \<in> measure (\<lambda>(format, s). length s)"
    by (cases tok) auto
qed

text \<open>The callback of \<^verbatim>\<open>segments.map\<close> in \<^verbatim>\<open>parseCustomFolderPath\<close>.\<close>

definition processSegment :: "(string \<Rightarrow> string) \<Rightarrow> string \<Rightarrow> string" where
  "processSegment format segment =
     (if list_ex (\<lambda>token. js_includes segment token) dateTokens
      then replaceTokens format segment
      else segment)"

text \<open>
  \<^verbatim>\<open>parseCustomFolderPath(folderPath, date)\<close>; the date is given by its method
  \<^verbatim>\<open>format\<close>. \<^verbatim>\<open>!folderPath\<close> holds of the empty string.
\<close>

definition parseCustomFolderPath :: "string \<Rightarrow> (string \<Rightarrow> string) \<Rightarrow> string" where
  "parseCustomFolderPath folderPath format =
     (if folderPath = [] then []
      else js_join (map (processSegment format) (js_split folderPath CHR ''/'')) CHR ''/'')"

subsection \<open>The host's date formatting\<close>

text \<open>A calendar date: the year, the month from 1 to 12 and the day of the month.\<close>

record date =
  year :: nat
  month :: nat
  day :: nat

definition digit :: "nat \<Rightarrow> char" where
  "digit n = ''0123456789'' ! (n mod 10)"

definition pad2 :: "nat \<Rightarrow> string" where
  "pad2 n = [digit (n div 10), digit n]"

definition pad4 :: "nat \<Rightarrow> string" where
  "pad4 n = [digit (n div 1000), digit (n div 100), digit (n div 10), digit n]"

fun decimal :: "nat \<Rightarrow> string" where
  "decimal n = (if n < 10 then [digit n] else decimal (n div 10) @ [digit n])"

declare decimal.simps [simp del]

definition monthNames :: "string list" where
  "monthNames =
     [''January'', ''February'', ''March'', ''April'', ''May'', ''June'', ''July'',
      ''August'', ''September'', ''October'', ''November'', ''December'']"

definition dayNames :: "string list" where
  "dayNames =
     [''Sunday'', ''Monday'', ''Tuesday'', ''Wednesday'', ''Thursday'', ''Friday'',
      ''Saturday'']"

text \<open>The day of the week of a Gregorian date, 0 for Sunday.\<close>

definition weekday :: "date \<Rightarrow> nat" where
  "weekday d =
     (let y = (if month d < 3 then year d - 1 else year d)
      in (y + y div 4 - y div 100 + y div 400
          + [0, 3, 2, 5, 0, 3, 5, 1, 4, 6, 2, 4] ! (month d - 1) + day d) mod 7)"

text \<open>
  Modelled from the spec: \<^verbatim>\<open>date.format(token)\<close> is the method of the host's date
  library (\<^verbatim>\<open>window.moment\<close>), which is not part of this repository. The
  specification names its result "that date's formatted value for that token":
  the four-digit year for \<^verbatim>\<open>YYYY\<close>, the full month name for \<^verbatim>\<open>MMMM\<close>, the full
  weekday name for \<^verbatim>\<open>dddd\<close>, and so on through the token set, here for years
  below 10000 and English names. \<^verbatim>\<open>parseCustomFolderPath\<close> calls it on matched
  tokens only.
\<close>

definition momentFormat :: "date \<Rightarrow> string \<Rightarrow> string" where
  "momentFormat d token =
     (if token = ''YYYY'' then pad4 (year d)
      else if token = ''YY'' then pad2 (year d mod 100)
      else if token = ''MMMM'' then monthNames ! (month d - 1)
      else if token = ''MMM'' then take 3 (monthNames ! (month d - 1))
      else if token = ''MM'' then pad2 (month d)
      else if token = ''M'' then decimal (month d)
      else if token = ''DD'' then pad2 (day d)
      else if token = ''D'' then decimal (day d)
      else if token = ''dddd'' then dayNames ! weekday d
      else if token = ''ddd'' then take 3 (dayNames ! weekday d)
      else token)"

text \<open>The date of the specification's examples, 5 March 2024 (a Tuesday).\<close>

definition exampleDate :: date where
  "exampleDate = \<lparr>year = 2024, month = 3, day = 5\<rparr>"

section \<open>The lookback search\<close>

text \<open>
  The calls the search makes to the vault, each with the calendar day (a day number)
  of the note it asks for.
\<close>

datatype vault_call = GetAbstractFileByPath int | VaultRead int

fun dayOf :: "vault_call \<Rightarrow> int" where
  "dayOf (GetAbstractFileByPath d) = d"
| "dayOf (VaultRead d) = d"

fun isRead :: "vault_call \<Rightarrow> bool" where
  "isRead (GetAbstractFileByPath d) = False"
| "isRead (VaultRead d) = True"

text \<open>
  The loop \<^verbatim>\<open>for (let i = 1; i <= this.settings.maxDays; i++)\<close> of \<^verbatim>\<open>newCallback\<close>.
  \<open>today\<close> is the day number of \<^verbatim>\<open>moment()\<close>, and \<open>today - i\<close> that of
  \<^verbatim>\<open>moment().subtract(i, 'days')\<close>; \<open>pathOf\<close> builds \<^verbatim>\<open>oldFilePath\<close> from the date
  (the resolver above, the file name and the host's \<^verbatim>\<open>normalizePath\<close>); the vault is a
  map from paths to contents, \<^verbatim>\<open>getAbstractFileByPath\<close> giving \<^verbatim>\<open>null\<close> where it is
  undefined. The result is \<^verbatim>\<open>found\<close>, \<^verbatim>\<open>oldFileContent\<close> and the calls made, in order.
\<close>

function lookbackLoop ::
  "(int \<Rightarrow> 'p) \<Rightarrow> ('p \<Rightarrow> string option) \<Rightarrow> int \<Rightarrow> nat \<Rightarrow> nat \<Rightarrow> vault_call list
     \<Rightarrow> bool \<times> string \<times> vault_call list" where
  "lookbackLoop pathOf vault today maxDays i calls =
     (if i \<le> maxDays then
        (case vault (pathOf (today - int i)) of
           Some content \<Rightarrow>
             (True, content,
              calls @ [GetAbstractFileByPath (today - int i), VaultRead (today - int i)])
         | None \<Rightarrow>
             lookbackLoop pathOf vault today maxDays (i + 1)
               (calls @ [GetAbstractFileByPath (today - int i)]))
      else (False, [], calls))"
  by pat_completeness auto
termination
  by (relation "measure (\<lambda>(pathOf, vault, today, maxDays, i, calls). maxDays + 1 - i)") auto

text \<open>
  The search as \<^verbatim>\<open>newCallback\<close> runs it: \<^verbatim>\<open>oldFileContent = ''\<close>, \<^verbatim>\<open>found = false\<close>,
  and the loop from \<open>i = 1\<close>.
\<close>

definition findPreviousNote ::
  "(int \<Rightarrow> 'p) \<Rightarrow> ('p \<Rightarrow> string option) \<Rightarrow> int \<Rightarrow> nat \<Rightarrow> bool \<times> string \<times> vault_call list" where
  "findPreviousNote pathOf vault today maxDays = lookbackLoop pathOf vault today maxDays 1 []"

section \<open>Splitting and joining\<close>

lemma js_split_nonempty: "js_split s sep \<noteq> []"
  by (induction s) (auto split: list.splits)

lemma js_split_no_sep: "l \<in> set (js_split s sep) \<Longrightarrow> sep \<notin> set l"
  by (induction s arbitrary: l) (auto split: list.splits if_splits)

lemma js_join_split: "js_join (js_split s sep) sep = s"
proof (induction s)
  case Nil
  show ?case by simp
next
  case (Cons c cs)
  obtain seg segs where sp: "js_split cs sep = seg # segs"
    using js_split_nonempty [of cs sep] by (cases "js_split cs sep") auto
  show ?case
  proof (cases "c = sep")
    case True
    with Cons sp show ?thesis by simp
  next
    case False
    with Cons sp show ?thesis by (cases segs) auto
  qed
qed

lemma js_split_unsep: "sep \<notin> set l \<Longrightarrow> js_split l sep = [l]"
  by (induction l) auto

lemma js_split_append_sep:
  "sep \<notin> set l \<Longrightarrow> js_split (l @ sep # s) sep = l # js_split s sep"
  by (induction l) auto

lemma js_split_join:
  "ls \<noteq> [] \<Longrightarrow> (\<And>l. l \<in> set ls \<Longrightarrow> sep \<notin> set l) \<Longrightarrow> js_split (js_join ls sep) sep = ls"
proof (induction ls sep rule: js_join.induct)
  case (1 sep)
  then show ?case by simp
next
  case (2 x sep)
  then show ?case by (simp add: js_split_unsep)
next
  case (3 x y rest sep)
  then show ?case by (simp add: js_split_append_sep)
qed

lemma js_trim_empty_iff: "js_trim s = [] \<longleftrightarrow> (\<forall>c\<in>set s. isWhiteSpace c)"
proof
  assume "js_trim s = []"
  then have a: "\<forall>c\<in>set (dropWhile isWhiteSpace s). isWhiteSpace c"
    by (simp add: js_trim_def)
  have "dropWhile isWhiteSpace s = []"
  proof (cases "dropWhile isWhiteSpace s")
    case Nil
    then show ?thesis .
  next
    case (Cons x xs)
    then have "\<not> isWhiteSpace x" using hd_dropWhile [of isWhiteSpace s] by simp
    with a Cons show ?thesis by simp
  qed
  then show "\<forall>c\<in>set s. isWhiteSpace c"
    by simp
next
  assume "\<forall>c\<in>set s. isWhiteSpace c"
  then have d: "dropWhile isWhiteSpace s = []"
    by simp
  show "js_trim s = []"
    unfolding js_trim_def d by simp
qed

section \<open>The loop of the task filter, turn by turn\<close>

lemma loop_Cons: "loop (l # ls) s r = loop ls (skipAfter l s) (r @ pushed l s)"
  by (simp add: skipAfter_def pushed_def indentLevel_def Let_def)

lemma pushed_cases: "pushed l s = [] \<or> pushed l s = [l]"
  by (simp add: pushed_def)

lemma pushed_no_task:
  "x \<in> set (pushed l s) \<Longrightarrow> js_trim x = [] \<or> \<not> taskRegex_test x"
  by (simp add: pushed_def split: if_splits)

lemma loop_result:
  "loop ls s r = (fst (loop ls s []), r @ snd (loop ls s []))"
proof (induction ls arbitrary: s r)
  case Nil
  show ?case by simp
next
  case (Cons l ls)
  have a: "loop (l # ls) s r = loop ls (skipAfter l s) (r @ pushed l s)"
    by (rule loop_Cons)
  have b: "loop (l # ls) s [] = loop ls (skipAfter l s) (pushed l s)"
    using loop_Cons [of l ls s "[]"] by (simp del: loop.simps)
  have c: "loop ls (skipAfter l s) (r @ pushed l s) =
      (fst (loop ls (skipAfter l s) []), (r @ pushed l s) @ snd (loop ls (skipAfter l s) []))"
    by (rule Cons.IH)
  have d: "loop ls (skipAfter l s) (pushed l s) =
      (fst (loop ls (skipAfter l s) []), pushed l s @ snd (loop ls (skipAfter l s) []))"
    by (rule Cons.IH)
  show ?case unfolding a b c d by simp
qed

lemma snd_loop_Cons:
  "snd (loop (l # ls) s []) = pushed l s @ snd (loop ls (skipAfter l s) [])"
proof -
  have "loop (l # ls) s [] = loop ls (skipAfter l s) (pushed l s)"
    using loop_Cons [of l ls s "[]"] by (simp del: loop.simps)
  then show ?thesis
    using loop_result [of ls "skipAfter l s" "pushed l s"] by (simp del: loop.simps)
qed

lemma fst_loop_Cons:
  "fst (loop (l # ls) s []) = fst (loop ls (skipAfter l s) [])"
proof -
  have "loop (l # ls) s [] = loop ls (skipAfter l s) (pushed l s)"
    using loop_Cons [of l ls s "[]"] by (simp del: loop.simps)
  then show ?thesis
    using loop_result [of ls "skipAfter l s" "pushed l s"] by (simp del: loop.simps)
qed

lemma loop_append:
  "loop (xs @ ys) s r = loop ys (fst (loop xs s r)) (snd (loop xs s r))"
proof (induction xs arbitrary: s r)
  case Nil
  show ?case by simp
next
  case (Cons x xs)
  have a: "loop (x # xs @ ys) s r = loop (xs @ ys) (skipAfter x s) (r @ pushed x s)"
    by (rule loop_Cons)
  have b: "loop (x # xs) s r = loop xs (skipAfter x s) (r @ pushed x s)"
    by (rule loop_Cons)
  have c: "loop (xs @ ys) (skipAfter x s) (r @ pushed x s) =
      loop ys (fst (loop xs (skipAfter x s) (r @ pushed x s)))
        (snd (loop xs (skipAfter x s) (r @ pushed x s)))"
    by (rule Cons.IH)
  show ?case unfolding append_Cons a b c by (rule refl)
qed

lemma loop_subseq: "subseq (snd (loop ls s [])) ls"
proof (induction ls arbitrary: s)
  case Nil
  show ?case by simp
next
  case (Cons l ls)
  have IH: "subseq (snd (loop ls (skipAfter l s) [])) ls"
    by (rule Cons.IH)
  from pushed_cases [of l s] show ?case
  proof
    assume e: "pushed l s = []"
    have "subseq (snd (loop ls (skipAfter l s) [])) (l # ls)"
      using IH by (rule list_emb_Cons)
    then show ?thesis unfolding snd_loop_Cons e by simp
  next
    assume e: "pushed l s = [l]"
    have "subseq (l # snd (loop ls (skipAfter l s) [])) (l # ls)"
      using IH by (rule subseq_Cons2)
    then show ?thesis unfolding snd_loop_Cons e by simp
  qed
qed

lemma loop_emitted_in:
  assumes "x \<in> set (snd (loop ls s []))"
  shows "x \<in> set ls"
proof -
  obtain y where "y \<in> set ls" and "x = y"
    using loop_subseq [of ls s] assms by (rule list_emb_set)
  then show ?thesis by simp
qed

lemma loop_emitted_no_task:
  "x \<in> set (snd (loop ls s [])) \<Longrightarrow> js_trim x = [] \<or> \<not> taskRegex_test x"
proof (induction ls arbitrary: s)
  case Nil
  then show ?case by simp
next
  case (Cons l ls)
  from Cons.prems have "x \<in> set (pushed l s) \<or> x \<in> set (snd (loop ls (skipAfter l s) []))"
    unfolding snd_loop_Cons by simp
  then show ?case
    using pushed_no_task [of x l s] Cons.IH by blast
qed

lemma loop_no_task:
  "(\<And>l. l \<in> set ls \<Longrightarrow> js_trim l = [] \<or> \<not> taskRegex_test l) \<Longrightarrow> loop ls 0 r = (0, r @ ls)"
proof (induction ls arbitrary: r)
  case Nil
  show ?case by simp
next
  case (Cons l ls)
  have l: "js_trim l = [] \<or> \<not> taskRegex_test l" using Cons.prems by simp
  have sk: "skipAfter l 0 = 0" using l by (auto simp: skipAfter_def)
  have pu: "pushed l 0 = [l]" using l by (auto simp: pushed_def)
  have "loop ls 0 (r @ [l]) = (0, (r @ [l]) @ ls)"
    by (rule Cons.IH) (simp add: Cons.prems)
  then show ?case unfolding loop_Cons sk pu by simp
qed

section \<open>The task filter on whole texts\<close>

lemma removeCompletedTasks_lines:
  "removeCompletedTasks content = js_join (snd (loop (js_split content NL) 0 [])) NL"
  by (simp only: removeCompletedTasks_def)

lemma filter_again:
  "js_join (snd (loop (js_split (js_join (snd (loop ls s [])) NL) NL) 0 [])) NL
   = js_join (snd (loop ls s [])) NL" if "\<And>l. l \<in> set ls \<Longrightarrow> NL \<notin> set l"
proof -
  define out where "out = snd (loop ls s [])"
  have "js_join (snd (loop (js_split (js_join out NL) NL) 0 [])) NL = js_join out NL"
  proof (cases "out = []")
    case True
    have "js_trim [] = []" by (simp add: js_trim_def)
    then show ?thesis unfolding True by simp
  next
    case False
    have nonl: "\<And>l. l \<in> set out \<Longrightarrow> NL \<notin> set l"
      unfolding out_def using loop_emitted_in that by blast
    have sp: "js_split (js_join out NL) NL = out"
      using False nonl by (rule js_split_join)
    have "loop out 0 [] = (0, [] @ out)"
      by (rule loop_no_task) (simp add: out_def loop_emitted_no_task)
    then show ?thesis unfolding sp by simp
  qed
  then show ?thesis unfolding out_def .
qed

text \<open>
  C5. The filter is a function of the text alone, and filtering its own output
  changes nothing: no completed task is left in the output to remove.
\<close>

theorem removeCompletedTasks_idempotent:
  "(\<forall>content'. content' = content \<longrightarrow> removeCompletedTasks content' = removeCompletedTasks content)
   \<and> removeCompletedTasks (removeCompletedTasks content) = removeCompletedTasks content"
proof
  show "\<forall>content'. content' = content \<longrightarrow> removeCompletedTasks content' = removeCompletedTasks content"
    by simp
next
  have "js_join (snd (loop (js_split (js_join (snd (loop (js_split content NL) 0 [])) NL) NL) 0 [])) NL
      = js_join (snd (loop (js_split content NL) 0 [])) NL"
    by (rule filter_again) (rule js_split_no_sep)
  then show "removeCompletedTasks (removeCompletedTasks content) = removeCompletedTasks content"
    by (simp only: removeCompletedTasks_def)
qed

theorem removeCompletedTasks_idempotent_witness:
  "removeCompletedTasks (removeCompletedTasks (js_join [''- [x] a'', ''  - b'', ''- c''] NL)) = ''- c''"
proof -
  have e: "removeCompletedTasks (js_join [''- [x] a'', ''  - b'', ''- c''] NL) = ''- c''"
    by (simp add: removeCompletedTasks_def NL_def js_trim_def isWhiteSpace_def replaceTabs_def
        TAB_def SP_def)
  show ?thesis
    using removeCompletedTasks_idempotent [of "js_join [''- [x] a'', ''  - b'', ''- c''] NL"]
    unfolding e by simp
qed

text \<open>
  C1. The level-tracking example of the specification: of the six lines, the first
  completed task and its indented child are dropped, the open task is kept, its
  nested completed child and that child's descendant are dropped, and the last
  line, a sibling at the top level, is kept.
\<close>

theorem removeCompletedTasks_level_tracking_example:
  "removeCompletedTasks
     (js_join [''- [x] done top'', ''  - child A'', ''- [ ] open'', ''  - [x] done nested'',
               ''    - grandchild'', ''- sibling''] NL)
   = js_join [''- [ ] open'', ''- sibling''] NL"
  by (simp add: removeCompletedTasks_def NL_def js_trim_def isWhiteSpace_def replaceTabs_def
      TAB_def SP_def)

text \<open>
  C9. The emitted lines are a subsequence of the lines of the input: each is a line
  of the input, character for character, and they stand in their original order.
  The filter drops whole lines and rewrites none.
\<close>

theorem removeCompletedTasks_subsequence:
  "\<exists>kept. subseq kept (js_split content NL) \<and> removeCompletedTasks content = js_join kept NL"
proof (intro exI conjI)
  show "subseq (snd (loop (js_split content NL) 0 [])) (js_split content NL)"
    by (rule loop_subseq)
  show "removeCompletedTasks content = js_join (snd (loop (js_split content NL) 0 [])) NL"
    by (rule removeCompletedTasks_lines)
qed

section \<open>Blank lines\<close>

lemma loop_blank:
  assumes "\<forall>c\<in>set b. isWhiteSpace c"
  shows "loop (b # rest) skip result = loop rest skip (result @ [b])"
proof -
  have "js_trim b = []"
    using assms by (simp add: js_trim_empty_iff)
  then show ?thesis by simp
qed

lemma loop_split:
  "snd (loop (pre @ post) s []) = snd (loop pre s []) @ snd (loop post (fst (loop pre s [])) [])"
  unfolding loop_append [of pre post s "[]"]
  using loop_result [of post "fst (loop pre s [])" "snd (loop pre s [])"]
  by simp

lemma loop_split_fst:
  "fst (loop (pre @ post) s []) = fst (loop post (fst (loop pre s [])) [])"
  unfolding loop_append [of pre post s "[]"]
  using loop_result [of post "fst (loop pre s [])" "snd (loop pre s [])"]
  by simp

text \<open>
  C8. An empty or all-white-space line is pushed and leaves \<^verbatim>\<open>skip\<close> as it was: the
  loop goes on after it with the same \<^verbatim>\<open>skip\<close> and the line added to the result. So
  in a text whose lines are \<open>pre\<close>, the blank line \<open>b\<close> and \<open>post\<close>, the output is the
  output for \<open>pre\<close>, then \<open>b\<close>, then what the lines of \<open>post\<close> give from the value
  of \<^verbatim>\<open>skip\<close> reached after \<open>pre\<close>: exactly the output of the text without the blank
  line, with \<open>b\<close> put in at its place, and \<^verbatim>\<open>skip\<close> ends at the same value.
\<close>

theorem blank_line_passes_through:
  assumes "\<forall>c\<in>set b. isWhiteSpace c" and "js_split content NL = pre @ b # post"
  shows "(\<forall>rest skip result. loop (b # rest) skip result = loop rest skip (result @ [b]))
    \<and> removeCompletedTasks content =
        js_join (snd (loop pre 0 []) @ b # snd (loop post (fst (loop pre 0 [])) [])) NL
    \<and> snd (loop (pre @ post) 0 []) =
        snd (loop pre 0 []) @ snd (loop post (fst (loop pre 0 [])) [])
    \<and> fst (loop (pre @ b # post) 0 []) = fst (loop (pre @ post) 0 [])"
proof (intro conjI allI)
  fix rest skip result
  show "loop (b # rest) skip result = loop rest skip (result @ [b])"
    using assms(1) by (rule loop_blank)
next
  have one: "loop (b # post) (fst (loop pre 0 [])) [] = loop post (fst (loop pre 0 [])) [b]"
    using loop_blank [OF assms(1), of post "fst (loop pre 0 [])" "[]"] by (simp del: loop.simps)
  have "snd (loop (pre @ b # post) 0 []) =
      snd (loop pre 0 []) @ snd (loop (b # post) (fst (loop pre 0 [])) [])"
    by (rule loop_split)
  also have "snd (loop (b # post) (fst (loop pre 0 [])) []) =
      b # snd (loop post (fst (loop pre 0 [])) [])"
    unfolding one using loop_result [of post "fst (loop pre 0 [])" "[b]"] by simp
  finally show "removeCompletedTasks content =
        js_join (snd (loop pre 0 []) @ b # snd (loop post (fst (loop pre 0 [])) [])) NL"
    unfolding removeCompletedTasks_def assms(2) by (simp del: loop.simps)
next
  show "snd (loop (pre @ post) 0 []) =
        snd (loop pre 0 []) @ snd (loop post (fst (loop pre 0 [])) [])"
    by (rule loop_split)
next
  have one: "loop (b # post) (fst (loop pre 0 [])) [] = loop post (fst (loop pre 0 [])) [b]"
    using loop_blank [OF assms(1), of post "fst (loop pre 0 [])" "[]"] by (simp del: loop.simps)
  have "fst (loop (pre @ b # post) 0 []) = fst (loop (b # post) (fst (loop pre 0 [])) [])"
    by (rule loop_split_fst)
  also have "\<dots> = fst (loop post (fst (loop pre 0 [])) [])"
    unfolding one using loop_result [of post "fst (loop pre 0 [])" "[b]"] by simp
  also have "\<dots> = fst (loop (pre @ post) 0 [])"
    by (rule loop_split_fst [symmetric])
  finally show "fst (loop (pre @ b # post) 0 []) = fst (loop (pre @ post) 0 [])" .
qed

theorem blank_line_passes_through_witness:
  "removeCompletedTasks (js_join [''- [x] done'', ''  '', ''  - child'', ''- next''] NL)
     = js_join [''  '', ''- next''] NL
   \<and> snd (loop [''- [x] done'', ''  - child'', ''- next''] 0 []) = [''- next'']"
proof -
  have ws: "\<forall>c\<in>set ''  ''. isWhiteSpace c"
    by (simp add: isWhiteSpace_def)
  have sp: "js_split (js_join [''- [x] done'', ''  '', ''  - child'', ''- next''] NL) NL
      = [''- [x] done''] @ ''  '' # [''  - child'', ''- next'']"
    by (simp add: NL_def)
  have pre: "loop [''- [x] done''] 0 [] = (1, [])"
    by (simp add: js_trim_def isWhiteSpace_def replaceTabs_def TAB_def SP_def)
  have post: "loop [''  - child'', ''- next''] 1 [] = (0, [''- next''])"
    by (simp add: js_trim_def isWhiteSpace_def replaceTabs_def TAB_def SP_def)
  show ?thesis
    using blank_line_passes_through [OF ws sp]
    unfolding pre post fst_conv snd_conv by simp
qed

section \<open>The checkbox, lower and upper case\<close>

lemma taskBody_marker: "taskBody (c # cs) \<Longrightarrow> c = CHR ''-'' \<or> c = CHR ''*''"
  by (erule taskBody.elims) auto

lemma marker_not_space: "m = CHR ''-'' \<or> m = CHR ''*'' \<Longrightarrow> \<not> isWhiteSpace m"
  by (auto simp: isWhiteSpace_def)

lemma taskRegex_test_indent:
  assumes "\<forall>c\<in>set ws. isWhiteSpace c" and "\<not> isWhiteSpace m"
  shows "taskRegex_test (ws @ m # r) = taskBody (m # r)"
  using assms(1)
proof (induction ws)
  case Nil
  show ?case using assms(2) by simp
next
  case (Cons c ws)
  have "\<not> taskBody (c # ws @ m # r)"
    using Cons.prems taskBody_marker [of c "ws @ m # r"] marker_not_space [of c] by auto
  then show ?case using Cons by simp
qed

lemma replaceTabs_append: "replaceTabs (a @ b) = replaceTabs a @ replaceTabs b"
  by (simp add: replaceTabs_def)

lemma replaceTabs_Cons: "c \<noteq> TAB \<Longrightarrow> replaceTabs (c # r) = c # replaceTabs r"
  by (simp add: replaceTabs_def)

lemma replaceTabs_space: "\<forall>c\<in>set ws. isWhiteSpace c \<Longrightarrow> \<forall>c\<in>set (replaceTabs ws). isWhiteSpace c"
  by (auto simp: replaceTabs_def isWhiteSpace_def SP_def TAB_def)

lemma search_nonspace_indent:
  "\<forall>c\<in>set ws. isWhiteSpace c \<Longrightarrow> \<not> isWhiteSpace m \<Longrightarrow>
   search_nonspace (ws @ m # r) = int (length ws)"
  by (induction ws) (auto simp: Let_def)

lemma indentLevel_indent:
  assumes "\<forall>c\<in>set ws. isWhiteSpace c" and "\<not> isWhiteSpace m"
  shows "indentLevel (ws @ m # r) = int (length (replaceTabs ws)) + 1"
proof -
  have "m \<noteq> TAB"
    using assms(2) by (auto simp: isWhiteSpace_def TAB_def)
  then have "replaceTabs (ws @ m # r) = replaceTabs ws @ m # replaceTabs r"
    by (simp add: replaceTabs_append replaceTabs_Cons)
  then show ?thesis
    unfolding indentLevel_def
    using search_nonspace_indent [OF replaceTabs_space [OF assms(1)] assms(2)] by simp
qed

lemma not_blank_indent:
  "\<not> isWhiteSpace m \<Longrightarrow> js_trim (ws @ m # r) \<noteq> []"
  by (auto simp: js_trim_empty_iff)

text \<open>
  C6, as the code has it. A line of optional white space, the marker \<^verbatim>\<open>-\<close> or \<^verbatim>\<open>*\<close>, one
  white-space character and \<^verbatim>\<open>[x]\<close> is a completed task and is dropped, whatever
  \<^verbatim>\<open>skip\<close> is. The same line with \<^verbatim>\<open>[X]\<close> is never a completed task: it is treated as
  any other line, so it is pushed unchanged unless it is indented deeper than the
  level \<^verbatim>\<open>skip\<close> of a completed task being suppressed, where it is dropped as a
  descendant. Without indentation it is always pushed, and ends the suppression.
\<close>

theorem checkbox_case_sensitive:
  assumes "\<forall>c\<in>set ws. isWhiteSpace c" and "m = CHR ''-'' \<or> m = CHR ''*''" and "isWhiteSpace sp"
  shows "taskRegex_test (ws @ m # sp # ''[x]'' @ rest)
    \<and> \<not> taskRegex_test (ws @ m # sp # ''[X]'' @ rest)
    \<and> (\<forall>ls skip result.
          loop ((ws @ m # sp # ''[x]'' @ rest) # ls) skip result =
          loop ls (if skip = 0 \<or> int (length (replaceTabs ws)) + 1 < skip
                   then int (length (replaceTabs ws)) + 1 else skip) result)
    \<and> (\<forall>ls skip result.
          loop ((ws @ m # sp # ''[X]'' @ rest) # ls) skip result =
          (if 0 < skip \<and> skip < int (length (replaceTabs ws)) + 1 then loop ls skip result
           else loop ls 0 (result @ [ws @ m # sp # ''[X]'' @ rest])))
    \<and> (\<forall>before after.
          snd (loop (before @ (m # sp # ''[X]'' @ rest) # after) 0 []) =
          snd (loop before 0 []) @ (m # sp # ''[X]'' @ rest) # snd (loop after 0 []))"
proof -
  have nm: "\<not> isWhiteSpace m"
    using assms(2) by (rule marker_not_space)
  have lower: "taskRegex_test (ws @ m # sp # ''[x]'' @ rest)"
    unfolding taskRegex_test_indent [OF assms(1) nm] using assms(2,3) by auto
  have upper: "\<not> taskRegex_test (ws @ m # sp # ''[X]'' @ rest)"
    unfolding taskRegex_test_indent [OF assms(1) nm] by simp
  have upper0: "\<not> taskRegex_test (m # sp # ''[X]'' @ rest)"
    using nm by simp
  have lvl: "\<And>r. indentLevel (ws @ m # r) = int (length (replaceTabs ws)) + 1"
    using assms(1) nm by (rule indentLevel_indent)
  have lvl0: "indentLevel (m # sp # ''[X]'' @ rest) = 1"
    using indentLevel_indent [of "[]" m "sp # ''[X]'' @ rest"] nm by (simp add: replaceTabs_def)
  have nb: "\<And>r. js_trim (ws @ m # r) \<noteq> []"
    using nm by (rule not_blank_indent)
  have nb0: "js_trim (m # sp # ''[X]'' @ rest) \<noteq> []"
    using not_blank_indent [OF nm, of "[]"] by simp
  have a: "\<forall>ls skip result.
          loop ((ws @ m # sp # ''[x]'' @ rest) # ls) skip result =
          loop ls (if skip = 0 \<or> int (length (replaceTabs ws)) + 1 < skip
                   then int (length (replaceTabs ws)) + 1 else skip) result"
    unfolding loop_Cons skipAfter_def pushed_def using lower nb lvl by simp
  have b: "\<forall>ls skip result.
          loop ((ws @ m # sp # ''[X]'' @ rest) # ls) skip result =
          (if 0 < skip \<and> skip < int (length (replaceTabs ws)) + 1 then loop ls skip result
           else loop ls 0 (result @ [ws @ m # sp # ''[X]'' @ rest]))"
    unfolding loop_Cons skipAfter_def pushed_def using upper nb lvl by auto
  have c: "\<forall>before after.
          snd (loop (before @ (m # sp # ''[X]'' @ rest) # after) 0 []) =
          snd (loop before 0 []) @ (m # sp # ''[X]'' @ rest) # snd (loop after 0 [])"
  proof (intro allI)
    fix before after
    let ?u = "m # sp # ''[X]'' @ rest"
    have sk: "\<And>s. skipAfter ?u s = 0"
      unfolding skipAfter_def using upper0 nb0 lvl0 by simp
    have pu: "\<And>s. pushed ?u s = [?u]"
      unfolding pushed_def using upper0 nb0 lvl0 by simp
    have "snd (loop (before @ ?u # after) 0 []) =
        snd (loop before 0 []) @ snd (loop (?u # after) (fst (loop before 0 [])) [])"
      by (rule loop_split)
    also have "snd (loop (?u # after) (fst (loop before 0 [])) []) = ?u # snd (loop after 0 [])"
      unfolding snd_loop_Cons sk pu by simp
    finally show "snd (loop (before @ ?u # after) 0 []) =
        snd (loop before 0 []) @ ?u # snd (loop after 0 [])" .
  qed
  show ?thesis
    using lower upper a b c by (intro conjI)
qed

theorem checkbox_case_sensitive_witness:
  "taskRegex_test ''  * [x] done'' \<and> \<not> taskRegex_test ''  * [X] done''
   \<and> loop [''  * [x] done''] 0 [] = (3, [])
   \<and> loop [''  * [X] done''] 0 [] = (0, [''  * [X] done''])"
proof -
  have ws: "\<forall>c\<in>set ''  ''. isWhiteSpace c"
    by (simp add: isWhiteSpace_def)
  have m: "CHR ''*'' = CHR ''-'' \<or> CHR ''*'' = CHR ''*''"
    by simp
  have sp: "isWhiteSpace CHR '' ''"
    by (simp add: isWhiteSpace_def)
  have len: "int (length (replaceTabs ''  '')) + 1 = 3"
    by (simp add: replaceTabs_def TAB_def)
  show ?thesis
    using checkbox_case_sensitive [OF ws m sp, of "'' done''"] unfolding len
    by (simp del: loop.simps(2))
qed

text \<open>
  The claim as the specification states it fails for an indented line: under a
  completed task, the line with \<^verbatim>\<open>[X]\<close> is not a completed task and still does not
  reach the output.
\<close>

theorem uppercase_checkbox_counterexample:
  "\<not> taskRegex_test ''  - [X] done''
   \<and> removeCompletedTasks (js_join [''- [x] parent'', ''  - [X] done''] NL) = []
   \<and> ''  - [X] done'' \<notin>
       set (js_split (removeCompletedTasks (js_join [''- [x] parent'', ''  - [X] done''] NL)) NL)"
  by (simp add: removeCompletedTasks_def NL_def js_trim_def isWhiteSpace_def replaceTabs_def
      TAB_def SP_def)

section \<open>Tabs and the indent level\<close>

lemma length_replaceTabs:
  "length (replaceTabs ws) =
     length (filter (\<lambda>c. c \<noteq> TAB) ws) + 3 * length (filter (\<lambda>c. c = TAB) ws)"
  by (induction ws) (simp_all add: replaceTabs_def)

lemma loop_nonblank:
  assumes "\<forall>c\<in>set ws. isWhiteSpace c" and "\<not> isWhiteSpace m"
  shows "loop ((ws @ m # r) # rest) skip result =
     (let level = int (length (filter (\<lambda>c. c \<noteq> TAB) ws))
                  + 3 * int (length (filter (\<lambda>c. c = TAB) ws)) + 1
      in if taskRegex_test (ws @ m # r) then
           loop rest (if skip = 0 \<or> level < skip then level else skip) result
         else if skip > 0 \<and> level > skip then loop rest skip result
         else loop rest 0 (result @ [ws @ m # r]))"
proof -
  have nb: "js_trim (ws @ m # r) \<noteq> []"
    using assms(2) by (rule not_blank_indent)
  have "indentLevel (ws @ m # r) = int (length (replaceTabs ws)) + 1"
    using assms by (rule indentLevel_indent)
  then have lvl: "search_nonspace (replaceTabs (ws @ m # r)) + 1 =
      int (length (filter (\<lambda>c. c \<noteq> TAB) ws)) + 3 * int (length (filter (\<lambda>c. c = TAB) ws)) + 1"
    unfolding indentLevel_def length_replaceTabs by simp
  show ?thesis
    unfolding loop.simps(2) [of "ws @ m # r"] lvl using nb by (simp add: Let_def)
qed

text \<open>
  C3, as the code has it. A retained line is pushed as it stands in the input, its
  tab characters included: the emitted lines are the lines of the input at a set
  of positions, in their order. The three spaces for a tab are used for the indent
  level only: the level of a line that is not blank is one more than the number of
  its leading white-space characters, a tab among them counted three times, and it
  is this level that is compared with \<^verbatim>\<open>skip\<close>; the line pushed is the line with
  its tabs.
\<close>

theorem removeCompletedTasks_keeps_tabs:
  "(\<exists>N. snd (loop (js_split content NL) 0 []) = nths (js_split content NL) N
       \<and> removeCompletedTasks content = js_join (nths (js_split content NL) N) NL)
   \<and> (\<forall>ws m r rest skip result.
        (\<forall>c\<in>set ws. isWhiteSpace c) \<and> \<not> isWhiteSpace m \<longrightarrow>
        loop ((ws @ m # r) # rest) skip result =
          (let level = int (length (filter (\<lambda>c. c \<noteq> TAB) ws))
                       + 3 * int (length (filter (\<lambda>c. c = TAB) ws)) + 1
           in if taskRegex_test (ws @ m # r) then
                loop rest (if skip = 0 \<or> level < skip then level else skip) result
              else if skip > 0 \<and> level > skip then loop rest skip result
              else loop rest 0 (result @ [ws @ m # r])))"
proof (intro conjI allI impI)
  obtain N where N: "snd (loop (js_split content NL) 0 []) = nths (js_split content NL) N"
    using loop_subseq [of "js_split content NL" 0] unfolding subseq_conv_nths by blast
  show "\<exists>N. snd (loop (js_split content NL) 0 []) = nths (js_split content NL) N
       \<and> removeCompletedTasks content = js_join (nths (js_split content NL) N) NL"
    using N removeCompletedTasks_lines [of content] by (intro exI [of _ N]) simp
next
  fix ws m r rest skip result
  assume "(\<forall>c\<in>set ws. isWhiteSpace c) \<and> \<not> isWhiteSpace m"
  then show "loop ((ws @ m # r) # rest) skip result =
          (let level = int (length (filter (\<lambda>c. c \<noteq> TAB) ws))
                       + 3 * int (length (filter (\<lambda>c. c = TAB) ws)) + 1
           in if taskRegex_test (ws @ m # r) then
                loop rest (if skip = 0 \<or> level < skip then level else skip) result
              else if skip > 0 \<and> level > skip then loop rest skip result
              else loop rest 0 (result @ [ws @ m # r]))"
    using loop_nonblank [of ws m r rest skip result] by blast
qed

theorem removeCompletedTasks_keeps_tabs_witness:
  "loop [TAB # ''- child''] 3 [] = (3, [])
   \<and> loop [TAB # ''- child''] 4 [] = (0, [TAB # ''- child''])
   \<and> loop [[TAB, TAB, CHR ''*'', CHR '' '', CHR ''['', CHR ''x'', CHR '']'']] 0 [] = (7, [])"
proof -
  have ws1: "(\<forall>c\<in>set [TAB]. isWhiteSpace c) \<and> \<not> isWhiteSpace CHR ''-''"
    by (simp add: isWhiteSpace_def TAB_def)
  have ws2: "(\<forall>c\<in>set [TAB, TAB]. isWhiteSpace c) \<and> \<not> isWhiteSpace CHR ''*''"
    by (simp add: isWhiteSpace_def TAB_def)
  have step:
    "\<forall>ws m r rest skip result.
        (\<forall>c\<in>set ws. isWhiteSpace c) \<and> \<not> isWhiteSpace m \<longrightarrow>
        loop ((ws @ m # r) # rest) skip result =
          (let level = int (length (filter (\<lambda>c. c \<noteq> TAB) ws))
                       + 3 * int (length (filter (\<lambda>c. c = TAB) ws)) + 1
           in if taskRegex_test (ws @ m # r) then
                loop rest (if skip = 0 \<or> level < skip then level else skip) result
              else if skip > 0 \<and> level > skip then loop rest skip result
              else loop rest 0 (result @ [ws @ m # r]))"
    using removeCompletedTasks_keeps_tabs [of "[]"] by blast
  have nt: "\<not> taskRegex_test ([TAB] @ CHR ''-'' # '' child'')"
    by (simp add: isWhiteSpace_def TAB_def)
  have t: "taskRegex_test ([TAB, TAB] @ CHR ''*'' # '' [x]'')"
    by (simp add: isWhiteSpace_def TAB_def)
  have a: "loop [TAB # ''- child''] 3 [] = (3, [])"
    using step [rule_format, OF ws1, of "'' child''" "[]" 3 "[]"] nt
    by (simp add: Let_def del: loop.simps(2))
  have b: "loop [TAB # ''- child''] 4 [] = (0, [TAB # ''- child''])"
    using step [rule_format, OF ws1, of "'' child''" "[]" 4 "[]"] nt
    by (simp add: Let_def del: loop.simps(2))
  have c: "loop [[TAB, TAB, CHR ''*'', CHR '' '', CHR ''['', CHR ''x'', CHR '']'']] 0 [] = (7, [])"
    using step [rule_format, OF ws2, of "'' [x]''" "[]" 0 "[]"] t
    by (simp add: Let_def del: loop.simps(2))
  show ?thesis using a b c by simp
qed

text \<open>
  The claim as the specification states it fails: a kept line that starts with a tab
  comes out with the tab, not with three spaces.
\<close>

theorem removeCompletedTasks_tab_counterexample:
  "removeCompletedTasks (TAB # ''- [ ] open'') = TAB # ''- [ ] open''
   \<and> removeCompletedTasks (TAB # ''- [ ] open'') \<noteq> replaceTabs (TAB # ''- [ ] open'')"
  by (simp add: removeCompletedTasks_def NL_def js_trim_def isWhiteSpace_def replaceTabs_def
      TAB_def SP_def)

section \<open>The example date\<close>

lemma momentFormat_exampleDate:
  "momentFormat exampleDate ''YYYY'' = ''2024''"
  "momentFormat exampleDate ''YY'' = ''24''"
  "momentFormat exampleDate ''MM'' = ''03''"
  "momentFormat exampleDate ''M'' = ''3''"
  "momentFormat exampleDate ''DD'' = ''05''"
  "momentFormat exampleDate ''D'' = ''5''"
  "momentFormat exampleDate ''ddd'' = ''Tue''"
  "momentFormat exampleDate ''dddd'' = ''Tuesday''"
  "momentFormat exampleDate ''MMMM'' = ''March''"
  "momentFormat exampleDate ''MMM'' = ''Mar''"
  by (simp_all add: momentFormat_def exampleDate_def pad4_def pad2_def digit_def decimal.simps
      monthNames_def dayNames_def weekday_def)

lemma exampleDate_no_slash:
  "\<forall>tok\<in>set dateTokens. CHR ''/'' \<notin> set (momentFormat exampleDate tok)"
  by (simp add: dateTokens_def momentFormat_exampleDate)

section \<open>Properties of the folder path resolver\<close>

lemma matchAlternation_Some:
  "matchAlternation toks s = Some t \<Longrightarrow> t \<in> set toks \<and> prefix t s"
  by (induction toks) (auto split: if_splits)

lemma matchAlternation_None:
  "matchAlternation toks s = None \<Longrightarrow> \<forall>t\<in>set toks. \<not> prefix t s"
  by (induction toks) (auto split: if_splits)

lemma replaceTokens_avoids:
  "\<forall>tok\<in>set dateTokens. x \<notin> set (format tok) \<Longrightarrow> x \<notin> set seg \<Longrightarrow>
   x \<notin> set (replaceTokens format seg)"
proof (induction format seg rule: replaceTokens.induct)
  case (1 format)
  show ?case by simp
next
  case (2 format c cs)
  show ?case
  proof (cases "matchAlternation dateTokens (c # cs)")
    case None
    then show ?thesis using 2 by simp
  next
    case (Some tok)
    have tok: "tok \<in> set dateTokens"
      using matchAlternation_Some [OF Some] by simp
    have "x \<notin> set (drop (length tok) (c # cs))"
      using "2.prems"(2) in_set_dropD by fast
    then have "x \<notin> set (replaceTokens format (drop (length tok) (c # cs)))"
      using "2.IH"(2) [OF Some] "2.prems"(1) by simp
    moreover have "x \<notin> set (format tok)"
      using tok "2.prems"(1) by blast
    ultimately show ?thesis using Some by simp
  qed
qed

lemma processSegment_avoids:
  assumes "\<forall>tok\<in>set dateTokens. x \<notin> set (format tok)" and "x \<notin> set seg"
  shows "x \<notin> set (processSegment format seg)"
  unfolding processSegment_def using replaceTokens_avoids [OF assms] assms(2) by simp

lemma parseCustomFolderPath_segments:
  "parseCustomFolderPath folderPath format =
     js_join (map (processSegment format) (js_split folderPath CHR ''/'')) CHR ''/''"
proof (cases "folderPath = []")
  case True
  have "processSegment format [] = []"
    by (simp add: processSegment_def)
  then show ?thesis
    unfolding parseCustomFolderPath_def True by simp
next
  case False
  then show ?thesis
    by (simp add: parseCustomFolderPath_def)
qed

text \<open>
  C10. When no value the date renders for a token holds a \<^verbatim>\<open>/\<close>, the resolved path
  has as many segments as the template: substitution joins, drops and adds none.
\<close>

theorem parseCustomFolderPath_segment_count:
  assumes "\<forall>tok\<in>set dateTokens. CHR ''/'' \<notin> set (format tok)"
  shows "length (js_split (parseCustomFolderPath folderPath format) CHR ''/'')
       = length (js_split folderPath CHR ''/'')"
proof -
  let ?outs = "map (processSegment format) (js_split folderPath CHR ''/'')"
  have ne: "?outs \<noteq> []"
    using js_split_nonempty [of folderPath "CHR ''/''"] by simp
  have clean: "\<And>l. l \<in> set ?outs \<Longrightarrow> CHR ''/'' \<notin> set l"
    using processSegment_avoids [OF assms] js_split_no_sep [of _ folderPath "CHR ''/''"]
    by auto
  have "js_split (js_join ?outs CHR ''/'') CHR ''/'' = ?outs"
    using ne clean by (rule js_split_join)
  then show ?thesis
    unfolding parseCustomFolderPath_segments by simp
qed

theorem parseCustomFolderPath_segment_count_witness:
  "length (js_split (parseCustomFolderPath ''journal/YYYY/MM-DD'' (momentFormat exampleDate))
     CHR ''/'') = 3"
proof -
  have h: "\<forall>tok\<in>set dateTokens. CHR ''/'' \<notin> set (momentFormat exampleDate tok)"
    by (rule exampleDate_no_slash)
  show ?thesis
    using parseCustomFolderPath_segment_count [OF h, of "''journal/YYYY/MM-DD''"] by simp
qed

text \<open>
  C7. The template is split on \<^verbatim>\<open>/\<close>, a segment without a token is left as it is
  and the results are joined with \<^verbatim>\<open>/\<close>; the segment \<^verbatim>\<open>YYYY-MM\<close> resolves to
  \<^verbatim>\<open>2024-03\<close> on 5 March 2024. But not every occurrence of a recognized token is
  replaced by the date's value for it: \<^verbatim>\<open>MMMM\<close> and \<^verbatim>\<open>dddd\<close> are in \<^verbatim>\<open>dateTokens\<close>,
  their values on that day are \<^verbatim>\<open>March\<close> and \<^verbatim>\<open>Tuesday\<close>, and the segment
  \<^verbatim>\<open>MMMM-dddd\<close> resolves to \<^verbatim>\<open>0303-Tued\<close>.
\<close>

theorem parseCustomFolderPath_listed_token_not_replaced:
  "parseCustomFolderPath ''journal/YYYY/MMMM-dddd'' (momentFormat exampleDate)
     = ''journal/2024/0303-Tued''
   \<and> ''MMMM'' \<in> set dateTokens \<and> ''dddd'' \<in> set dateTokens
   \<and> js_join [''journal'', momentFormat exampleDate ''YYYY'',
               momentFormat exampleDate ''MMMM'' @ ''-'' @ momentFormat exampleDate ''dddd'']
        CHR ''/'' = ''journal/2024/March-Tuesday''
   \<and> parseCustomFolderPath ''YYYY-MM'' (momentFormat exampleDate) = ''2024-03''"
  by (simp add: parseCustomFolderPath_def processSegment_def js_includes_def dateTokens_def
      sublist_code momentFormat_exampleDate)

text \<open>
  C2. The alternation is tried in the order of \<^verbatim>\<open>dateTokens\<close>, where \<^verbatim>\<open>MM\<close> stands
  before \<^verbatim>\<open>MMMM\<close> and \<^verbatim>\<open>MMM\<close>, and \<^verbatim>\<open>ddd\<close> before \<^verbatim>\<open>dddd\<close>: the longer token is never
  the match. \<^verbatim>\<open>YYYY\<close> stands before \<^verbatim>\<open>YY\<close> and is matched whole. On 5 March 2024 the
  segment \<^verbatim>\<open>MMMM\<close> gives \<^verbatim>\<open>0303\<close> and \<^verbatim>\<open>dddd\<close> gives \<^verbatim>\<open>Tued\<close>.
\<close>

theorem alternation_order_shadows_long_tokens:
  "parseCustomFolderPath ''YYYY'' format = format ''YYYY''
   \<and> parseCustomFolderPath ''MMMM'' format = format ''MM'' @ format ''MM''
   \<and> parseCustomFolderPath ''MMM'' format = format ''MM'' @ format ''M''
   \<and> parseCustomFolderPath ''dddd'' format = format ''ddd'' @ ''d''
   \<and> parseCustomFolderPath ''MMMM'' (momentFormat exampleDate) = ''0303''
   \<and> momentFormat exampleDate ''MMMM'' = ''March''
   \<and> parseCustomFolderPath ''dddd'' (momentFormat exampleDate) = ''Tued''
   \<and> momentFormat exampleDate ''dddd'' = ''Tuesday''"
  by (simp add: parseCustomFolderPath_def processSegment_def js_includes_def dateTokens_def
      sublist_code momentFormat_exampleDate)

section \<open>Properties of the lookback search\<close>

text \<open>The defining equation of the loop, for unfolding one turn at a time.\<close>

lemma lookbackLoop_unfold:
  "lookbackLoop pathOf vault today maxDays i calls =
     (if i \<le> maxDays then
        (case vault (pathOf (today - int i)) of
           Some content \<Rightarrow>
             (True, content,
              calls @ [GetAbstractFileByPath (today - int i), VaultRead (today - int i)])
         | None \<Rightarrow>
             lookbackLoop pathOf vault today maxDays (i + 1)
               (calls @ [GetAbstractFileByPath (today - int i)]))
      else (False, [], calls))"
  by (rule lookbackLoop.simps)

lemma lookbackLoop_miss:
  assumes "\<forall>j. i \<le> j \<and> j \<le> maxDays \<longrightarrow> vault (pathOf (today - int j)) = None"
  shows "lookbackLoop pathOf vault today maxDays i calls =
     (False, [], calls @ map (\<lambda>j. GetAbstractFileByPath (today - int j)) [i..<Suc maxDays])"
  using assms
proof (induction pathOf vault today maxDays i calls rule: lookbackLoop.induct)
  case (1 pathOf vault today maxDays i calls)
  show ?case
  proof (cases "i \<le> maxDays")
    case False
    then show ?thesis
      by (subst lookbackLoop_unfold) simp
  next
    case True
    have none: "vault (pathOf (today - int i)) = None"
      using "1.prems" True by simp
    have rest: "\<forall>j. i + 1 \<le> j \<and> j \<le> maxDays \<longrightarrow> vault (pathOf (today - int j)) = None"
      using "1.prems" by simp
    have IH: "lookbackLoop pathOf vault today maxDays (i + 1)
        (calls @ [GetAbstractFileByPath (today - int i)]) =
        (False, [], (calls @ [GetAbstractFileByPath (today - int i)]) @
          map (\<lambda>j. GetAbstractFileByPath (today - int j)) [i + 1..<Suc maxDays])"
      using "1.IH" [OF True none rest] .
    have IH': "lookbackLoop pathOf vault today maxDays (Suc i)
        (calls @ [GetAbstractFileByPath (today - int i)]) =
        (False, [], calls @ GetAbstractFileByPath (today - int i) #
          map (\<lambda>j. GetAbstractFileByPath (today - int j)) [Suc i..<Suc maxDays])"
      using IH by (simp del: lookbackLoop.simps upt_Suc)
    have up: "[i..<Suc maxDays] = i # [Suc i..<Suc maxDays]"
      using True by (simp add: upt_conv_Cons)
    show ?thesis
      by (subst lookbackLoop_unfold) (simp add: True none IH' up del: lookbackLoop.simps upt_Suc)
  qed
qed

lemma lookbackLoop_hit:
  assumes "i \<le> k" and "k \<le> maxDays" and "vault (pathOf (today - int k)) = Some content"
    and "\<forall>j. i \<le> j \<and> j < k \<longrightarrow> vault (pathOf (today - int j)) = None"
  shows "lookbackLoop pathOf vault today maxDays i calls =
     (True, content,
      calls @ map (\<lambda>j. GetAbstractFileByPath (today - int j)) [i..<Suc k]
        @ [VaultRead (today - int k)])"
  using assms
proof (induction pathOf vault today maxDays i calls rule: lookbackLoop.induct)
  case (1 pathOf vault today maxDays i calls)
  have le: "i \<le> maxDays" using "1.prems"(1,2) by simp
  show ?case
  proof (cases "i = k")
    case True
    have up: "[k..<Suc k] = [k]" by simp
    show ?thesis
      using "1.prems"(3) le unfolding True
      by (subst lookbackLoop_unfold) (simp add: up del: lookbackLoop.simps upt_Suc)
  next
    case False
    then have lt: "i < k" using "1.prems"(1) by simp
    have none: "vault (pathOf (today - int i)) = None"
      using "1.prems"(4) lt by simp
    have rest: "\<forall>j. i + 1 \<le> j \<and> j < k \<longrightarrow> vault (pathOf (today - int j)) = None"
      using "1.prems"(4) by simp
    have ik: "i + 1 \<le> k" using lt by simp
    have IH: "lookbackLoop pathOf vault today maxDays (i + 1)
        (calls @ [GetAbstractFileByPath (today - int i)]) =
        (True, content, (calls @ [GetAbstractFileByPath (today - int i)]) @
          map (\<lambda>j. GetAbstractFileByPath (today - int j)) [i + 1..<Suc k]
          @ [VaultRead (today - int k)])"
      using "1.IH" [OF le none ik "1.prems"(2,3) rest] .
    have IH': "lookbackLoop pathOf vault today maxDays (Suc i)
        (calls @ [GetAbstractFileByPath (today - int i)]) =
        (True, content, calls @ GetAbstractFileByPath (today - int i) #
          map (\<lambda>j. GetAbstractFileByPath (today - int j)) [Suc i..<Suc k]
          @ [VaultRead (today - int k)])"
      using IH by (simp del: lookbackLoop.simps upt_Suc)
    have up: "[i..<Suc k] = i # [Suc i..<Suc k]"
      using lt by (simp add: upt_conv_Cons)
    show ?thesis
      by (subst lookbackLoop_unfold) (simp add: le none IH' up del: lookbackLoop.simps upt_Suc)
  qed
qed

lemma findPreviousNote_miss:
  assumes "\<forall>j. 1 \<le> j \<and> j \<le> maxDays \<longrightarrow> vault (pathOf (today - int j)) = None"
  shows "findPreviousNote pathOf vault today maxDays =
     (False, [], map (\<lambda>j. GetAbstractFileByPath (today - int j)) [1..<Suc maxDays])"
  unfolding findPreviousNote_def
  using lookbackLoop_miss [where i = 1 and maxDays = maxDays and vault = vault
      and pathOf = pathOf and today = today and calls = "[]"] assms
  by simp

lemma findPreviousNote_hit:
  assumes "1 \<le> k" and "k \<le> maxDays" and "vault (pathOf (today - int k)) = Some content"
    and "\<forall>j. 1 \<le> j \<and> j < k \<longrightarrow> vault (pathOf (today - int j)) = None"
  shows "findPreviousNote pathOf vault today maxDays =
     (True, content,
      map (\<lambda>j. GetAbstractFileByPath (today - int j)) [1..<Suc k] @ [VaultRead (today - int k)])"
  unfolding findPreviousNote_def
  using lookbackLoop_hit [where i = 1 and k = k and maxDays = maxDays and vault = vault
      and pathOf = pathOf and today = today and content = content and calls = "[]"] assms
  by simp

lemma findPreviousNote_cases:
  obtains
    (miss) "findPreviousNote pathOf vault today maxDays =
       (False, [], map (\<lambda>j. GetAbstractFileByPath (today - int j)) [1..<Suc maxDays])"
  | (hit) k content where "1 \<le> k" and "k \<le> maxDays"
      and "findPreviousNote pathOf vault today maxDays =
       (True, content,
        map (\<lambda>j. GetAbstractFileByPath (today - int j)) [1..<Suc k] @ [VaultRead (today - int k)])"
proof (cases "\<forall>j. 1 \<le> j \<and> j \<le> maxDays \<longrightarrow> vault (pathOf (today - int j)) = None")
  case True
  then show ?thesis using findPreviousNote_miss miss by blast
next
  case False
  define P where "P j \<longleftrightarrow> 1 \<le> j \<and> j \<le> maxDays \<and> vault (pathOf (today - int j)) \<noteq> None" for j
  have ex: "\<exists>j. P j" using False unfolding P_def by blast
  define k where "k = (LEAST j. P j)"
  have Pk: "P k" unfolding k_def using ex by (auto intro: LeastI)
  have least: "\<And>j. j < k \<Longrightarrow> \<not> P j" unfolding k_def by (rule not_less_Least)
  obtain content where c: "vault (pathOf (today - int k)) = Some content"
    using Pk unfolding P_def by blast
  have before: "\<forall>j. 1 \<le> j \<and> j < k \<longrightarrow> vault (pathOf (today - int j)) = None"
  proof (intro allI impI)
    fix j assume j: "1 \<le> j \<and> j < k"
    then have "\<not> P j" using least by simp
    moreover have "j \<le> maxDays" using j Pk unfolding P_def by simp
    ultimately show "vault (pathOf (today - int j)) = None"
      using j unfolding P_def by simp
  qed
  have k: "1 \<le> k" "k \<le> maxDays" using Pk unfolding P_def by simp_all
  have "findPreviousNote pathOf vault today maxDays =
       (True, content,
        map (\<lambda>j. GetAbstractFileByPath (today - int j)) [1..<Suc k] @ [VaultRead (today - int k)])"
    using k c before
    by (rule findPreviousNote_hit [where k = k and maxDays = maxDays and vault = vault
          and pathOf = pathOf and today = today and content = content])
  then show ?thesis
    using k hit by blast
qed

text \<open>
  C4. The search asks the vault for the notes of \<open>today - 1\<close>, \<open>today - 2\<close>, ... in
  that order. When none of the \<open>maxDays\<close> candidates exists it reports not found,
  after exactly those \<open>maxDays\<close> queries, whatever lies further back. When \<open>k\<close> is
  the first candidate that exists, it returns that note's content after the queries
  for \<open>today - 1\<close>, ..., \<open>today - k\<close> and one read, and makes no call after it. Every
  call is for a day before \<open>today\<close> and not before \<open>today - maxDays\<close>, and there is
  at most one read.
\<close>

theorem lookback_search_order:
  "((\<forall>j. 1 \<le> j \<and> j \<le> maxDays \<longrightarrow> vault (pathOf (today - int j)) = None) \<longrightarrow>
      findPreviousNote pathOf vault today maxDays =
        (False, [], map (\<lambda>j. GetAbstractFileByPath (today - int j)) [1..<Suc maxDays]))
   \<and> (1 \<le> k \<and> k \<le> maxDays \<and> vault (pathOf (today - int k)) = Some content
        \<and> (\<forall>j. 1 \<le> j \<and> j < k \<longrightarrow> vault (pathOf (today - int j)) = None) \<longrightarrow>
      findPreviousNote pathOf vault today maxDays =
        (True, content,
         map (\<lambda>j. GetAbstractFileByPath (today - int j)) [1..<Suc k]
           @ [VaultRead (today - int k)]))
   \<and> (\<forall>c\<in>set (snd (snd (findPreviousNote pathOf vault today maxDays))).
        today - int maxDays \<le> dayOf c \<and> dayOf c < today)
   \<and> length (filter isRead (snd (snd (findPreviousNote pathOf vault today maxDays)))) \<le> 1"
proof (intro conjI impI)
  assume "\<forall>j. 1 \<le> j \<and> j \<le> maxDays \<longrightarrow> vault (pathOf (today - int j)) = None"
  then show "findPreviousNote pathOf vault today maxDays =
        (False, [], map (\<lambda>j. GetAbstractFileByPath (today - int j)) [1..<Suc maxDays])"
    by (rule findPreviousNote_miss)
next
  assume a: "1 \<le> k \<and> k \<le> maxDays \<and> vault (pathOf (today - int k)) = Some content
        \<and> (\<forall>j. 1 \<le> j \<and> j < k \<longrightarrow> vault (pathOf (today - int j)) = None)"
  show "findPreviousNote pathOf vault today maxDays =
        (True, content,
         map (\<lambda>j. GetAbstractFileByPath (today - int j)) [1..<Suc k]
           @ [VaultRead (today - int k)])"
    using findPreviousNote_hit [where k = k and maxDays = maxDays and vault = vault
        and pathOf = pathOf and today = today and content = content] a
    by blast
next
  show "\<forall>c\<in>set (snd (snd (findPreviousNote pathOf vault today maxDays))).
        today - int maxDays \<le> dayOf c \<and> dayOf c < today"
  proof (cases rule: findPreviousNote_cases [of pathOf vault today maxDays])
    case miss
    show ?thesis unfolding miss by auto
  next
    case (hit k' content')
    show ?thesis unfolding hit(3) using hit(1,2) by auto
  qed
next
  have nr: "\<And>n. filter isRead (map (\<lambda>j. GetAbstractFileByPath (today - int j)) [1..<n]) = []"
    by (simp add: filter_empty_conv)
  show "length (filter isRead (snd (snd (findPreviousNote pathOf vault today maxDays)))) \<le> 1"
  proof (cases rule: findPreviousNote_cases [of pathOf vault today maxDays])
    case miss
    show ?thesis unfolding miss by (simp add: nr del: upt_Suc)
  next
    case (hit k' content')
    show ?thesis unfolding hit(3) by (simp add: nr del: upt_Suc)
  qed
qed

theorem lookback_search_order_witness:
  "findPreviousNote (\<lambda>d. d) [98 \<mapsto> ''two days back'', 95 \<mapsto> ''five days back''] 100 7 =
     (True, ''two days back'',
      [GetAbstractFileByPath 99, GetAbstractFileByPath 98, VaultRead 98])
   \<and> findPreviousNote (\<lambda>d. d) [96 \<mapsto> ''four days back''] 100 3 =
     (False, [], [GetAbstractFileByPath 99, GetAbstractFileByPath 98, GetAbstractFileByPath 97])"
proof
  have before: "\<forall>j::nat. 1 \<le> j \<and> j < 2 \<longrightarrow>
      [98 \<mapsto> ''two days back'', 95 \<mapsto> ''five days back''] (100 - int j) = None"
    by auto
  have up: "[1..<Suc 2] = [1, 2]"
    by (simp add: upt_conv_Cons)
  show "findPreviousNote (\<lambda>d. d) [98 \<mapsto> ''two days back'', 95 \<mapsto> ''five days back''] 100 7 =
     (True, ''two days back'',
      [GetAbstractFileByPath 99, GetAbstractFileByPath 98, VaultRead 98])"
    using lookback_search_order [of 7 "[98 \<mapsto> ''two days back'', 95 \<mapsto> ''five days back'']"
        "\<lambda>d. d" 100 2 "''two days back''"] before
    unfolding up by simp
next
  have none: "\<forall>j::nat. 1 \<le> j \<and> j \<le> 3 \<longrightarrow> [96 \<mapsto> ''four days back''] (100 - int j) = None"
    by auto
  have up: "[1..<Suc 3] = [1, 2, 3]"
    by (simp add: upt_conv_Cons)
  show "findPreviousNote (\<lambda>d. d) [96 \<mapsto> ''four days back''] 100 3 =
     (False, [], [GetAbstractFileByPath 99, GetAbstractFileByPath 98, GetAbstractFileByPath 97])"
    using lookback_search_order [of 3 "[96 \<mapsto> ''four days back'']" "\<lambda>d. d" 100] none
    unfolding up by simp
qed

end
